theory Spec2Isabelle
  imports Main "HOL-Library.Word" "HOL-Library.Signed_Division"
begin

unbundle bit_operations_syntax

section \<open>Data model\<close>

text \<open>
  Go's \<^verbatim>\<open>int64\<close> is a 64-bit word: \<open>+\<close> and \<open><<\<close> (\<open>push_bit\<close>) wrap,
  \<open>&\<close> and \<open>|\<close> are bitwise, comparisons are the signed ones (\<open>\<le>s\<close>, \<open><s\<close>)
  and \<open>>>\<close> is the arithmetic shift \<open>signed_drop_bit\<close>. A \<^verbatim>\<open>byte\<close> is an
  8-bit word. Go's \<^verbatim>\<open>int\<close> appears only as a process identifier, a byte value
  and a slice length; it is modelled by \<open>int\<close>, with Go's truncating \<^verbatim>\<open>%\<close>
  written \<open>smod\<close>.
\<close>

type_synonym int64 = "64 word"
type_synonym byte = "8 word"

text \<open>
  Values of Go's \<^verbatim>\<open>error\<close> interface that the package meets: the failure of
  \<^verbatim>\<open>net.InterfaceAddrs\<close> and the failure of \<^verbatim>\<open>rand.Read\<close>. A call that the
  runtime ends without a result is a separate outcome: the panic
  \<^verbatim>\<open>makeslice: len out of range\<close>, or the fatal error \<^verbatim>\<open>out of memory\<close>.
\<close>

datatype error = InterfaceAddrsError | EntropyError

datatype panic = MakesliceLenOutOfRange | OutOfMemory

section \<open>Random hex strings\<close>

text \<open>
  The entropy source of \<^verbatim>\<open>crypto/rand\<close>: it either fails, or delivers a stream of
  bytes of which \<^verbatim>\<open>rand.Read\<close> takes as many as the buffer holds.
\<close>

datatype entropy = Failing | Source "nat \<Rightarrow> byte"

definition rand_Read :: "entropy \<Rightarrow> nat \<Rightarrow> error + byte list" where
  "rand_Read e n = (case e of Failing \<Rightarrow> Inl EntropyError | Source f \<Rightarrow> Inr (map f [0..<n]))"

text \<open>\<^verbatim>\<open>hex.EncodeToString\<close> of the standard library: two digits of \<^verbatim>\<open>hextable\<close> per byte.\<close>

definition hextable :: string where
  "hextable = ''0123456789abcdef''"

definition EncodeToString :: "byte list \<Rightarrow> string" where
  "EncodeToString src =
     concat (map (\<lambda>v. [hextable ! unat (drop_bit 4 v), hextable ! unat (v AND 0x0f)]) src)"

text \<open>
  \<^verbatim>\<open>make([]byte, n)\<close>, as the runtime's \<^verbatim>\<open>makeslice\<close> does it: a length that is
  negative or above \<^verbatim>\<open>maxAlloc\<close> (1 << 48 bytes on a 64-bit platform) panics; a length
  within the limit is allocated if the memory is there. \<open>mem\<close> is the size in bytes of
  the largest allocation that the runtime can satisfy while the call runs.
\<close>

definition maxAlloc :: int where
  "maxAlloc = 2 ^ 48"

definition make_bytes :: "nat \<Rightarrow> int \<Rightarrow> panic + nat" where
  "make_bytes mem n =
     (if n < 0 \<or> maxAlloc < n then Inl MakesliceLenOutOfRange
      else if int mem < n then Inl OutOfMemory
      else Inr (nat n))"

text \<open>
  \<^verbatim>\<open>GenerateRandomHexString\<close>: the buffer is allocated first; a failed read gives the
  empty string; \<^verbatim>\<open>hex.EncodeToString\<close> allocates twice the length of its argument
  for the digits before it encodes.
\<close>

definition GenerateRandomHexString :: "nat \<Rightarrow> entropy \<Rightarrow> int \<Rightarrow> panic + string" where
  "GenerateRandomHexString mem e n =
     (case make_bytes mem n of
        Inl p \<Rightarrow> Inl p
      | Inr k \<Rightarrow>
          (case rand_Read e k of
             Inl err \<Rightarrow> Inr ''''
           | Inr bytes \<Rightarrow>
               (case make_bytes mem (2 * int (length bytes)) of
                  Inl p \<Rightarrow> Inl p
                | Inr m \<Rightarrow> Inr (EncodeToString bytes))))"

text \<open>
  What the specification calls the lowercase hex encoding, digit by digit: the digit
  of a value below ten is the character \<open>0\<close> advanced by it, the digit of ten to
  fifteen is the character \<open>a\<close> advanced by what it exceeds ten.
\<close>

definition spec_hex_digit :: "nat \<Rightarrow> char" where
  "spec_hex_digit k = (if k < 10 then char_of (of_char CHR ''0'' + k) else char_of (of_char CHR ''a'' + (k - 10)))"

text \<open>A sample entropy stream: the bytes 0x07, 0x1e, 0x35, ...\<close>

definition sample :: "nat \<Rightarrow> byte" where
  "sample i = of_nat (23 * i + 7)"

section \<open>Node identity resolver\<close>

text \<open>
  An address returned by \<^verbatim>\<open>net.InterfaceAddrs\<close> is a \<^verbatim>\<open>*net.IPNet\<close> or another
  implementation of \<^verbatim>\<open>net.Addr\<close>; an \<^verbatim>\<open>IP\<close> is a byte slice. \<open>To4\<close> and
  \<open>IsLoopback\<close> follow the standard library: a 4-byte slice is its own IPv4 form, a
  16-byte slice with the prefix \<^verbatim>\<open>::ffff:\<close> has its last four bytes as IPv4 form, and
  a loopback address is 127.x.y.z or \<^verbatim>\<open>::1\<close>.
\<close>

type_synonym IP = "byte list"

datatype Addr = IPNet IP | IPAddr IP

definition To4 :: "IP \<Rightarrow> IP option" where
  "To4 ip =
     (if length ip = 4 then Some ip
      else if length ip = 16 \<and> take 10 ip = replicate 10 0 \<and> ip ! 10 = 0xff \<and> ip ! 11 = 0xff
      then Some (drop 12 ip)
      else None)"

definition IPv6loopback :: IP where
  "IPv6loopback = [0, 0, 0, 0, 0, 0, 0, 0, 0, 0, 0, 0, 0, 0, 0, 1]"

definition IsLoopback :: "IP \<Rightarrow> bool" where
  "IsLoopback ip = (case To4 ip of Some ip4 \<Rightarrow> ip4 ! 0 = 127 | None \<Rightarrow> ip = IPv6loopback)"

text \<open>The loop of \<^verbatim>\<open>getLastIPOctet\<close>, with the \<^verbatim>\<open>return 0, nil\<close> that follows it.\<close>

fun scanAddrs :: "Addr list \<Rightarrow> int" where
  "scanAddrs [] = 0"
| "scanAddrs (IPNet ip # addrs) =
     (if \<not> IsLoopback ip
      then (case To4 ip of Some ipv4 \<Rightarrow> uint (ipv4 ! 3) | None \<Rightarrow> scanAddrs addrs)
      else scanAddrs addrs)"
| "scanAddrs (IPAddr ip # addrs) = scanAddrs addrs"

text \<open>The argument is the outcome of \<^verbatim>\<open>net.InterfaceAddrs()\<close>.\<close>

definition getLastIPOctet :: "error + Addr list \<Rightarrow> error + int" where
  "getLastIPOctet r = (case r of Inl err \<Rightarrow> Inl err | Inr addrs \<Rightarrow> Inr (scanAddrs addrs))"

text \<open>The second argument is the value of \<^verbatim>\<open>os.Getpid()\<close>.\<close>

definition getMachineID :: "error + Addr list \<Rightarrow> int \<Rightarrow> int64" where
  "getMachineID r pid =
     (case getLastIPOctet r of
        Inr ip \<Rightarrow> word_of_int ip
      | Inl err \<Rightarrow> word_of_int (pid smod 1024))"

section \<open>Snowflake generator\<close>

text \<open>The struct \<^verbatim>\<open>SnowflakeGenerator\<close>; its mutex carries no data.\<close>

record SnowflakeGenerator =
  lastTimestamp :: int64
  sequence :: int64
  machineID :: int64

definition NewSnowflakeGenerator :: "int64 \<Rightarrow> SnowflakeGenerator" where
  "NewSnowflakeGenerator m =
     \<lparr>lastTimestamp = 0, sequence = 0, machineID = m AND 0x3FF\<rparr>"

text \<open>
  What one call of \<^verbatim>\<open>GenerateSnowflakeID\<close> sees of the world: \<open>now\<close> is the reading
  of \<^verbatim>\<open>time.Now().UnixMilli()\<close> at entry, \<open>ticks\<close> are the successive readings of the
  \<^verbatim>\<open>default\<close> branch of the poll loop, and \<open>fire\<close> is the number of such readings
  before the channel of \<^verbatim>\<open>time.After(time.Millisecond)\<close> becomes ready. The channel
  delivers one value: once received, the \<^verbatim>\<open>select\<close> always takes \<^verbatim>\<open>default\<close>.
\<close>

record clock =
  now :: int64
  ticks :: "nat \<Rightarrow> int64"
  fire :: nat

datatype timer = Armed nat | Drained

text \<open>
  The loop \<^verbatim>\<open>for timestamp <= sg.lastTimestamp { select { ... } }\<close>. \<open>i\<close> counts the
  readings taken so far; \<open>Armed k\<close> is a timer that becomes ready after \<open>k\<close> more
  readings. A loop that never exits has the value \<open>None\<close>.
\<close>

partial_function (option) poll ::
  "(nat \<Rightarrow> int64) \<Rightarrow> timer \<Rightarrow> nat \<Rightarrow> int64 \<Rightarrow> int64 \<Rightarrow> int64 option" where
  "poll clk tm i lst timestamp =
     (if timestamp \<le>s lst then
        (case tm of
           Armed 0 \<Rightarrow> poll clk Drained i lst (lst + 1)
         | Armed (Suc k) \<Rightarrow> poll clk (Armed k) (Suc i) lst (clk i)
         | Drained \<Rightarrow> poll clk Drained (Suc i) lst (clk i))
      else Some timestamp)"

declare poll.simps [code]

text \<open>The last two statements: record the timestamp, compose the identifier.\<close>

definition finish :: "int64 \<Rightarrow> SnowflakeGenerator \<Rightarrow> (int64 \<times> SnowflakeGenerator) option" where
  "finish timestamp sg =
     (let sg' = sg\<lparr>lastTimestamp := timestamp\<rparr>
      in Some (push_bit 22 timestamp OR push_bit 12 (machineID sg') OR sequence sg', sg'))"

definition GenerateSnowflakeID ::
  "clock \<Rightarrow> SnowflakeGenerator \<Rightarrow> (int64 \<times> SnowflakeGenerator) option" where
  "GenerateSnowflakeID c sg =
     (let timestamp = now c in
      if timestamp = lastTimestamp sg then
        (let sg1 = sg\<lparr>sequence := (sequence sg + 1) AND 0xFFF\<rparr> in
         if sequence sg1 = 0 then
           (case poll (ticks c) (Armed (fire c)) 0 (lastTimestamp sg1) timestamp of
              None \<Rightarrow> None
            | Some timestamp' \<Rightarrow> finish timestamp' sg1)
         else finish timestamp sg1)
      else finish timestamp (sg\<lparr>sequence := 0\<rparr>))"

text \<open>Successive calls on one generator, one clock per call; the identifiers in order of return.\<close>

fun mints :: "clock list \<Rightarrow> SnowflakeGenerator \<Rightarrow> (int64 list \<times> SnowflakeGenerator) option" where
  "mints [] sg = Some ([], sg)"
| "mints (c # cs) sg =
     (case GenerateSnowflakeID c sg of
        None \<Rightarrow> None
      | Some (v, sg') \<Rightarrow>
          (case mints cs sg' of
             None \<Rightarrow> None
           | Some (vs, sg'') \<Rightarrow> Some (v # vs, sg'')))"

definition returned :: "clock list \<Rightarrow> SnowflakeGenerator \<Rightarrow> int64 list" where
  "returned cs sg = (case mints cs sg of None \<Rightarrow> [] | Some (vs, sg') \<Rightarrow> vs)"

text \<open>A clock that reads \<open>t\<close> whenever asked, with the timeout ready after \<open>k\<close> polls.\<close>

definition steady :: "int64 \<Rightarrow> nat \<Rightarrow> int64" where
  "steady t i = t"

definition stalled :: "int64 \<Rightarrow> nat \<Rightarrow> clock" where
  "stalled t k = \<lparr>now = t, ticks = steady t, fire = k\<rparr>"

definition max_int64 :: int64 where
  "max_int64 = 0x7FFFFFFFFFFFFFFF"

text \<open>
  The identifier that a state stands for (the one last returned), the states whose fields
  fit the layout, and the runs in which no call reads a clock value behind
  \<open>lastTimestamp\<close> and no recorded timestamp reaches 2^41.
\<close>

definition well_formed :: "SnowflakeGenerator \<Rightarrow> bool" where
  "well_formed sg \<longleftrightarrow>
     uint (machineID sg) < 2 ^ 10 \<and> uint (sequence sg) < 2 ^ 12
     \<and> 0 \<le>s lastTimestamp sg \<and> lastTimestamp sg <s 2 ^ 41"

definition ident :: "SnowflakeGenerator \<Rightarrow> int64" where
  "ident sg = push_bit 22 (lastTimestamp sg) OR push_bit 12 (machineID sg) OR sequence sg"

fun clock_keeps_up :: "clock list \<Rightarrow> SnowflakeGenerator \<Rightarrow> bool" where
  "clock_keeps_up [] sg = True"
| "clock_keeps_up (c # cs) sg =
     (lastTimestamp sg \<le>s now c \<and>
      (case GenerateSnowflakeID c sg of
         None \<Rightarrow> True
       | Some (v, sg') \<Rightarrow> lastTimestamp sg' <s 2 ^ 41 \<and> clock_keeps_up cs sg'))"

section \<open>Signed and unsigned readings of a word\<close>

lemma sint_small: "uint (w::int64) < 2 ^ 63 \<Longrightarrow> sint w = uint w"
proof -
  assume "uint w < 2 ^ 63"
  moreover have "- (2 ^ 63) \<le> uint w" by (rule order_trans [of _ 0]) simp_all
  ultimately have "signed_take_bit 63 (uint w) = uint w"
    by (simp only: signed_take_bit_int_eq_self_iff)
  then show ?thesis by (simp add: sint_uint)
qed

lemma uint_and_le: "uint ((m::int64) AND k) \<le> uint k"
  by (simp add: word_and_le1 [unfolded word_le_def])

lemma sint_and_3FF: "sint ((m::int64) AND 0x3FF) = uint (m AND 0x3FF)"
  using uint_and_le [of m "0x3FF"] by (intro sint_small) simp

section \<open>Node discriminator masking\<close>

text \<open>
  C6. For every 64-bit integer \<open>m\<close>, negative ones included, the constructor stores
  \<open>m AND 0x3FF\<close> as the node discriminator; the stored value lies in [0, 1023];
  2047 is stored as 1023, and so is -1; the constructor is a total function, so no
  input is rejected.
\<close>

theorem NewSnowflakeGenerator_masks:
  "machineID (NewSnowflakeGenerator m) = m AND 0x3FF
   \<and> 0 \<le>s machineID (NewSnowflakeGenerator m)
   \<and> machineID (NewSnowflakeGenerator m) \<le>s 1023
   \<and> machineID (NewSnowflakeGenerator 2047) = 1023
   \<and> machineID (NewSnowflakeGenerator (- 1)) = 1023"
  using uint_and_le [of m "0x3FF"]
  by (simp add: NewSnowflakeGenerator_def word_sle_eq sint_and_3FF)

section \<open>Random hex strings: length, failure sentinel, panic\<close>

lemma length_EncodeToString: "length (EncodeToString bs) = 2 * length bs"
  by (induction bs) (simp_all add: EncodeToString_def)

lemma nibble_hi: "unat (drop_bit 4 (v::byte)) < 16"
proof -
  have "unat v < 256" using unsigned_less [of v] by simp
  moreover have "unat (drop_bit 4 v) = unat v div 16"
    by (simp add: drop_bit_eq_div unat_div)
  ultimately show ?thesis by simp
qed

lemma nibble_lo: "unat ((v::byte) AND 0x0f) < 16"
proof -
  have "(v AND 0x0f) \<le> 0x0f" by (rule word_and_le1)
  then have "unat (v AND 0x0f) \<le> unat (0x0f :: byte)" by (simp only: word_le_nat_alt)
  then show ?thesis by simp
qed

lemma set_EncodeToString: "set (EncodeToString bs) \<subseteq> set hextable"
proof -
  have "hextable ! k \<in> set hextable" if "k < 16" for k
    using that by (intro nth_mem) (simp add: hextable_def)
  then show ?thesis
    using nibble_hi nibble_lo by (auto simp: EncodeToString_def)
qed

lemma nth_EncodeToString:
  "i < length bs \<Longrightarrow>
   EncodeToString bs ! (2 * i) = hextable ! unat (drop_bit 4 (bs ! i))
   \<and> EncodeToString bs ! (2 * i + 1) = hextable ! unat (bs ! i AND 0x0f)"
proof (induction bs arbitrary: i)
  case Nil
  then show ?case by simp
next
  case (Cons b bs)
  have e: "EncodeToString (b # bs) =
      hextable ! unat (drop_bit 4 b) # hextable ! unat (b AND 0x0f) # EncodeToString bs"
    by (simp add: EncodeToString_def)
  show ?case
  proof (cases i)
    case 0
    then show ?thesis by (simp add: e)
  next
    case (Suc j)
    with Cons.prems have "j < length bs" by simp
    from Cons.IH [OF this] show ?thesis by (simp add: e Suc)
  qed
qed

lemma unat_high_nibble: "unat (drop_bit 4 (v::byte)) = unat v div 16"
  by (simp add: drop_bit_eq_div unat_div)

lemma unat_low_nibble: "unat ((v::byte) AND 0x0f) = unat v mod 16"
proof -
  have "(0x0f :: byte) = mask 4" by (simp add: mask_eq_exp_minus_1)
  then have "v AND 0x0f = take_bit 4 v" by (simp only: take_bit_eq_mask)
  then have "unat (v AND 0x0f) = take_bit 4 (unat v)" by (simp only: unsigned_take_bit_eq)
  then show ?thesis by (simp only: take_bit_eq_mod) simp
qed

lemma hextable_spec: "k < 16 \<Longrightarrow> hextable ! k = spec_hex_digit k"
proof -
  have "list_all (\<lambda>k. hextable ! k = spec_hex_digit k) [0..<16]"
    by code_simp
  then have "\<forall>k\<in>set [0..<16]. hextable ! k = spec_hex_digit k"
    by (simp only: list_all_iff)
  moreover assume "k < 16"
  ultimately show ?thesis by simp
qed

lemma EncodeToString_spec:
  assumes "i < length bs"
  shows "EncodeToString bs ! (2 * i) = spec_hex_digit (unat (bs ! i) div 16)
    \<and> EncodeToString bs ! (2 * i + 1) = spec_hex_digit (unat (bs ! i) mod 16)"
proof -
  have "unat (bs ! i) div 16 < 16"
    using nibble_hi [of "bs ! i"] by (simp only: unat_high_nibble)
  moreover have "unat (bs ! i) mod 16 < 16" by simp
  ultimately show ?thesis
    using nth_EncodeToString [OF assms]
    by (simp only: unat_high_nibble unat_low_nibble hextable_spec)
qed

text \<open>
  C8 (as amended). For every length \<open>n \<ge> 0\<close> such that \<open>2 * n\<close> bytes are within the
  runtime's allocation limit and within the memory it can provide: when the entropy read
  succeeds, the result has exactly \<open>2 * n\<close> characters, the characters \<open>2 * i\<close> and
  \<open>2 * i + 1\<close> are the lowercase hex digits of the high and the low half of the
  \<open>i\<close>-th byte read, and each character is one of \<open>0123456789abcdef\<close>; when the
  entropy read fails, the result is exactly the empty string.
\<close>

theorem GenerateRandomHexString_length:
  assumes "0 \<le> n" "2 * n \<le> maxAlloc" "2 * n \<le> int mem"
  shows "\<exists>s. GenerateRandomHexString mem (Source f) n = Inr s
    \<and> length s = 2 * nat n
    \<and> (\<forall>i<nat n. s ! (2 * i) = spec_hex_digit (unat (f i) div 16)
                  \<and> s ! (2 * i + 1) = spec_hex_digit (unat (f i) mod 16))
    \<and> set s \<subseteq> set ''0123456789abcdef''
    \<and> GenerateRandomHexString mem Failing n = Inr ''''"
proof -
  let ?bs = "map f [0..<nat n]"
  have a: "make_bytes mem n = Inr (nat n)"
    using assms by (simp add: make_bytes_def)
  have b: "make_bytes mem (2 * int (length ?bs)) = Inr (nat (2 * int (length ?bs)))"
    using assms by (simp add: make_bytes_def)
  have r: "GenerateRandomHexString mem (Source f) n = Inr (EncodeToString ?bs)"
    using b by (simp add: GenerateRandomHexString_def a rand_Read_def)
  have l: "length (EncodeToString ?bs) = 2 * nat n"
    by (simp add: length_EncodeToString)
  have d: "EncodeToString ?bs ! (2 * i) = spec_hex_digit (unat (f i) div 16)
      \<and> EncodeToString ?bs ! (2 * i + 1) = spec_hex_digit (unat (f i) mod 16)"
    if "i < nat n" for i
    using EncodeToString_spec [of i ?bs] that by simp
  have c: "set (EncodeToString ?bs) \<subseteq> set ''0123456789abcdef''"
    using set_EncodeToString [of ?bs] by (simp add: hextable_def)
  have f: "GenerateRandomHexString mem Failing n = Inr ''''"
    by (simp add: GenerateRandomHexString_def a rand_Read_def)
  from r l d c f show ?thesis by blast
qed

theorem GenerateRandomHexString_length_witness:
  "(0::int) \<le> 16 \<and> 2 * 16 \<le> maxAlloc \<and> 2 * (16::int) \<le> int 64
   \<and> GenerateRandomHexString 64 (Source sample) 16 = Inr ''071e354c637a91a8bfd6ed041b324960''
   \<and> length ''071e354c637a91a8bfd6ed041b324960'' = 32
   \<and> GenerateRandomHexString 64 Failing 16 = Inr ''''"
proof -
  have h: "(0::int) \<le> 16" "2 * 16 \<le> maxAlloc" "2 * (16::int) \<le> int 64"
    by (simp_all add: maxAlloc_def)
  have e: "GenerateRandomHexString 64 (Source sample) 16 = Inr ''071e354c637a91a8bfd6ed041b324960''"
    by code_simp
  show ?thesis
    using GenerateRandomHexString_length [OF h, of sample] h e by simp
qed

text \<open>
  C8, as stated, fails for lengths above the allocation limit: at \<open>n = 2^62\<close> the
  allocation of the byte slice panics, whatever memory there is, and no string is
  returned.
\<close>

theorem GenerateRandomHexString_huge_length:
  "(0::int) \<le> 2 ^ 62
   \<and> GenerateRandomHexString (2 ^ 64) (Source sample) (2 ^ 62) = Inl MakesliceLenOutOfRange"
  by (simp add: GenerateRandomHexString_def make_bytes_def maxAlloc_def)

text \<open>
  C9. A request for zero bytes returns the empty string when the entropy source
  succeeds, which is also what a failed read returns: the two outcomes are equal.
\<close>

theorem GenerateRandomHexString_zero:
  "GenerateRandomHexString mem (Source f) 0 = Inr ''''
   \<and> GenerateRandomHexString mem Failing 0 = Inr ''''
   \<and> GenerateRandomHexString mem (Source f) 0 = GenerateRandomHexString mem Failing 0"
  by (simp add: GenerateRandomHexString_def make_bytes_def maxAlloc_def rand_Read_def
      EncodeToString_def)

text \<open>
  C10. For every negative length the call panics in the allocation of the byte slice,
  whatever the entropy source would do, and returns no string.
\<close>

theorem GenerateRandomHexString_negative:
  "n < 0 \<Longrightarrow> GenerateRandomHexString mem e n = Inl MakesliceLenOutOfRange"
  by (simp add: GenerateRandomHexString_def make_bytes_def)

theorem GenerateRandomHexString_negative_witness:
  "(- 1 :: int) < 0
   \<and> GenerateRandomHexString 64 (Source sample) (- 1) = Inl MakesliceLenOutOfRange"
  using GenerateRandomHexString_negative [of "- 1" 64 "Source sample"] by simp

section \<open>Node identity resolver: the fallback\<close>

text \<open>
  C1. When the enumeration succeeds and holds no non-loopback IPv4 address,
  \<^verbatim>\<open>getLastIPOctet\<close> returns 0 with a nil error, so \<^verbatim>\<open>getMachineID\<close> returns 0
  and not the process identifier modulo 1024: on an empty enumeration for every
  process identifier, and on a host with only 127.0.0.1 and ::1 for the process 4242
  (4242 modulo 1024 is 146). Only a failed enumeration reaches the fallback.
\<close>

theorem getMachineID_no_address:
  "getMachineID (Inr []) pid = 0
   \<and> getMachineID (Inr [IPNet [127, 0, 0, 1], IPNet IPv6loopback]) 4242 = 0
   \<and> getMachineID (Inl err) pid = word_of_int (pid smod 1024)
   \<and> getMachineID (Inl InterfaceAddrsError) 4242 = 146"
proof -
  have "getMachineID (Inr []) pid = 0"
    by (simp add: getMachineID_def getLastIPOctet_def)
  moreover have "getMachineID (Inr [IPNet [127, 0, 0, 1], IPNet IPv6loopback]) 4242 = 0"
    by code_simp
  moreover have "getMachineID (Inl err) pid = word_of_int (pid smod 1024)"
    by (simp add: getMachineID_def getLastIPOctet_def)
  moreover have "getMachineID (Inl InterfaceAddrsError) 4242 = 146"
    by code_simp
  ultimately show ?thesis by simp
qed

section \<open>The poll loop\<close>

lemma sint_max_int64: "sint max_int64 = 2 ^ 63 - 1"
  by (simp add: max_int64_def)

lemma sle_max_int64: "x \<le>s max_int64"
  using sint_lt [of x] by (simp add: word_sle_eq sint_max_int64)

lemma sint_below_max: "x \<noteq> max_int64 \<Longrightarrow> sint (x::int64) < 2 ^ 63 - 1"
proof -
  assume "x \<noteq> max_int64"
  then have "sint x \<noteq> sint max_int64" by (simp add: word_eq_iff_signed [where ?'a = int])
  then show ?thesis using sint_lt [of x] by (simp add: sint_max_int64)
qed

lemma sint_succ: "x \<noteq> max_int64 \<Longrightarrow> sint (x + 1 :: int64) = sint x + 1"
proof -
  assume "x \<noteq> max_int64"
  then have "sint x < 2 ^ 63 - 1" by (rule sint_below_max)
  moreover have "- (2 ^ 63) \<le> sint x" using sint_ge [of x] by simp
  ultimately have "signed_take_bit 63 (sint x + 1) = sint x + 1"
    by (simp only: signed_take_bit_int_eq_self_iff) simp
  then show ?thesis by (simp add: sint_word_ariths)
qed

lemma poll_exit: "\<not> ts \<le>s lst \<Longrightarrow> poll clk tm i lst ts = Some ts"
  by (subst poll.simps) simp

lemma poll_Some_greater:
  assumes "poll clk tm i lst ts = Some y"
  shows "lst <s y"
proof (rule poll.raw_induct [where P = "\<lambda>clk tm i lst ts y. lst <s y", OF _ assms])
  fix p clk tm i ts y and lst :: int64
  assume IH: "\<And>clk tm i lst ts y. p clk tm i lst ts = Some y \<Longrightarrow> lst <s y"
    and body: "(if ts \<le>s lst then
        (case tm of
           Armed 0 \<Rightarrow> p clk Drained i lst (lst + 1)
         | Armed (Suc k) \<Rightarrow> p clk (Armed k) (Suc i) lst (clk i)
         | Drained \<Rightarrow> p clk Drained (Suc i) lst (clk i))
      else Some ts) = Some y"
  show "lst <s y"
  proof (cases "ts \<le>s lst")
    case True
    with body IH show ?thesis
      by (auto split: timer.splits nat.splits)
  next
    case False
    with body show ?thesis by auto
  qed
qed

lemma poll_max_diverges: "poll clk tm i max_int64 ts = None"
proof (cases "poll clk tm i max_int64 ts")
  case None then show ?thesis .
next
  case (Some y)
  then have "max_int64 <s y" by (rule poll_Some_greater)
  then show ?thesis using sle_max_int64 [of y] by simp
qed

lemma poll_drained_forced:
  "lst \<noteq> max_int64 \<Longrightarrow> poll clk Drained i lst (lst + 1) = Some (lst + 1)"
  by (rule poll_exit) (simp add: word_sle_eq sint_succ)

lemma poll_armed:
  "lst \<noteq> max_int64 \<Longrightarrow>
   \<exists>y. poll clk (Armed k) i lst ts = Some y
     \<and> (y = ts \<or> y = lst + 1 \<or> (\<exists>j. i \<le> j \<and> j < i + k \<and> y = clk j))"
proof (induction k arbitrary: i ts)
  case 0
  show ?case
  proof (cases "ts \<le>s lst")
    case True
    then have "poll clk (Armed 0) i lst ts = poll clk Drained i lst (lst + 1)"
      by (subst poll.simps) simp
    then show ?thesis using poll_drained_forced [OF 0] by simp
  next
    case False
    then show ?thesis by (simp add: poll_exit)
  qed
next
  case (Suc k)
  show ?case
  proof (cases "ts \<le>s lst")
    case True
    then have e: "poll clk (Armed (Suc k)) i lst ts = poll clk (Armed k) (Suc i) lst (clk i)"
      by (subst poll.simps) simp
    from Suc.IH [OF Suc.prems, of "Suc i" "clk i"]
    obtain y where y: "poll clk (Armed k) (Suc i) lst (clk i) = Some y"
      and d: "y = clk i \<or> y = lst + 1 \<or> (\<exists>j. Suc i \<le> j \<and> j < Suc i + k \<and> y = clk j)"
      by blast
    from d have "y = lst + 1 \<or> (\<exists>j. i \<le> j \<and> j < i + Suc k \<and> y = clk j)"
    proof (elim disjE exE conjE)
      assume "y = clk i"
      then have "i \<le> i \<and> i < i + Suc k \<and> y = clk i" by simp
      then show ?thesis by blast
    next
      assume "y = lst + 1" then show ?thesis by simp
    next
      fix j assume "Suc i \<le> j" "j < Suc i + k" "y = clk j"
      then have "i \<le> j \<and> j < i + Suc k \<and> y = clk j" by simp
      then show ?thesis by blast
    qed
    with e y show ?thesis by simp
  next
    case False
    then show ?thesis by (simp add: poll_exit)
  qed
qed

section \<open>The bit layout of an identifier\<close>

lemma int_layout:
  fixes T M Q :: int
  assumes "0 \<le> M" "M < 2 ^ 10" "0 \<le> Q" "Q < 2 ^ 12"
  shows "push_bit 22 T OR push_bit 12 M OR Q = T * 2 ^ 22 + M * 2 ^ 12 + Q"
proof -
  have q: "take_bit 12 Q = Q" using assms by (simp add: take_bit_int_eq_self)
  have low: "push_bit 12 M OR Q = M * 2 ^ 12 + Q"
    using concat_bit_eq [of 12 Q M] q by (simp add: concat_bit_def push_bit_eq_mult ac_simps)
  define L where "L = M * 2 ^ 12 + Q"
  have "0 \<le> L" "L < 2 ^ 22" using assms by (simp_all add: L_def)
  then have l: "take_bit 22 L = L"
    by (simp only: take_bit_int_eq_self)
  have c: "take_bit 22 L OR push_bit 22 T = take_bit 22 L + push_bit 22 T"
    using concat_bit_eq [of 22 L T] by (simp only: concat_bit_def)
  have "push_bit 22 T OR L = L OR push_bit 22 T" by (rule or.commute)
  also have "\<dots> = L + push_bit 22 T" using c by (simp only: l)
  also have "\<dots> = T * 2 ^ 22 + L" by (simp add: push_bit_eq_mult)
  finally show ?thesis by (simp only: low L_def add.assoc)
qed

lemma uint_layout:
  fixes ts m q :: int64
  assumes "uint ts < 2 ^ 41" "uint m < 2 ^ 10" "uint q < 2 ^ 12"
  shows "uint (push_bit 22 ts OR push_bit 12 m OR q) = uint ts * 2 ^ 22 + uint m * 2 ^ 12 + uint q"
proof -
  have "push_bit 22 (uint ts) < 2 ^ 64" using assms(1) by (simp add: push_bit_eq_mult)
  then have a: "uint (push_bit 22 ts) = push_bit 22 (uint ts)"
    by (simp add: unsigned_push_bit_eq take_bit_int_eq_self)
  have "push_bit 12 (uint m) < 2 ^ 64" using assms(2) by (simp add: push_bit_eq_mult)
  then have b: "uint (push_bit 12 m) = push_bit 12 (uint m)"
    by (simp add: unsigned_push_bit_eq take_bit_int_eq_self)
  show ?thesis
    using int_layout [of "uint m" "uint q" "uint ts"] assms
    by (simp only: uint_or a b) simp
qed

lemma sint_nonneg_uint: "0 \<le> sint (w::int64) \<Longrightarrow> uint w = sint w"
proof -
  assume "0 \<le> sint w"
  moreover have "sint w < 2 ^ 64" using sint_lt [of w] by simp
  ultimately have "take_bit 64 (sint w) = sint w" by (simp only: take_bit_int_eq_self)
  then show ?thesis by (simp add: uint_sint)
qed

lemma sint_layout:
  fixes ts m q :: int64
  assumes "0 \<le>s ts" "ts <s 2 ^ 41" "uint m < 2 ^ 10" "uint q < 2 ^ 12"
  shows "sint (push_bit 22 ts OR push_bit 12 m OR q) = sint ts * 2 ^ 22 + uint m * 2 ^ 12 + uint q"
proof -
  have nn: "0 \<le> sint ts" using assms(1) by (simp add: word_sle_eq)
  have lt: "sint ts < 2 ^ 41" using assms(2) by (simp add: word_sless_alt)
  have u: "uint ts = sint ts" using nn by (rule sint_nonneg_uint)
  have e: "uint (push_bit 22 ts OR push_bit 12 m OR q) = uint ts * 2 ^ 22 + uint m * 2 ^ 12 + uint q"
    using lt assms(3,4) by (intro uint_layout) (simp_all add: u)
  have "uint ts * 2 ^ 22 + uint m * 2 ^ 12 + uint q < 2 ^ 63"
    using lt assms(3,4) by (simp add: u)
  then have "sint (push_bit 22 ts OR push_bit 12 m OR q) = uint (push_bit 22 ts OR push_bit 12 m OR q)"
    by (intro sint_small) (simp only: e)
  then show ?thesis by (simp only: e u)
qed

lemma decode_timestamp:
  fixes ts m q :: int64
  assumes "0 \<le>s ts" "ts <s 2 ^ 41" "uint m < 2 ^ 10" "uint q < 2 ^ 12"
  shows "signed_drop_bit 22 (push_bit 22 ts OR push_bit 12 m OR q) = ts"
proof (rule signed_word_eqI [where ?'a = int])
  have "0 \<le> uint m * 2 ^ 12 + uint q" "uint m * 2 ^ 12 + uint q < 2 ^ 22"
    using assms(3,4) by simp_all
  then have "(sint ts * 2 ^ 22 + (uint m * 2 ^ 12 + uint q)) div 2 ^ 22 = sint ts"
    by simp
  then show "sint (signed_drop_bit 22 (push_bit 22 ts OR push_bit 12 m OR q)) = sint ts"
    by (simp only: sint_signed_drop_bit_eq sint_layout [OF assms] drop_bit_eq_div add.assoc)
qed

lemma decode_machine:
  fixes ts d q :: int64
  shows "signed_drop_bit 12 (push_bit 22 ts OR push_bit 12 (d AND mask 10) OR (q AND mask 12)) AND mask 10
         = d AND mask 10"
  by (rule bit_word_eqI) (auto simp: bit_simps)

lemma decode_sequence:
  fixes ts d q :: int64
  shows "(push_bit 22 ts OR push_bit 12 (d AND mask 10) OR (q AND mask 12)) AND mask 12 = q AND mask 12"
  by (rule bit_word_eqI) (auto simp: bit_simps)

lemma mask_10: "(0x3FF :: int64) = mask 10" by (simp add: mask_eq_exp_minus_1)
lemma mask_12: "(0xFFF :: int64) = mask 12" by (simp add: mask_eq_exp_minus_1)

section \<open>One call of the generator\<close>

lemma GenerateSnowflakeID_cases:
  assumes "GenerateSnowflakeID c sg = Some (v, sg')"
  shows "machineID sg' = machineID sg
    \<and> v = push_bit 22 (lastTimestamp sg') OR push_bit 12 (machineID sg) OR sequence sg'
    \<and> ((now c = lastTimestamp sg \<and> sequence sg' = (sequence sg + 1) AND 0xFFF
          \<and> sequence sg' \<noteq> 0 \<and> lastTimestamp sg' = now c)
       \<or> (now c = lastTimestamp sg \<and> (sequence sg + 1) AND 0xFFF = 0 \<and> sequence sg' = 0
          \<and> poll (ticks c) (Armed (fire c)) 0 (now c) (now c) = Some (lastTimestamp sg'))
       \<or> (now c \<noteq> lastTimestamp sg \<and> sequence sg' = 0 \<and> lastTimestamp sg' = now c))"
  using assms
  by (auto simp: GenerateSnowflakeID_def finish_def Let_def split: if_splits option.splits)

lemma poll_entry:
  assumes "t \<noteq> max_int64"
  shows "\<exists>y. poll clk (Armed k) 0 t t = Some y \<and> t <s y \<and> (y = t + 1 \<or> (\<exists>j<k. y = clk j))"
proof -
  from poll_armed [OF assms, of clk k 0 t]
  obtain y where y: "poll clk (Armed k) 0 t t = Some y"
    and d: "y = t \<or> y = t + 1 \<or> (\<exists>j. 0 \<le> j \<and> j < 0 + k \<and> y = clk j)"
    by blast
  have g: "t <s y" using y by (rule poll_Some_greater)
  then have "y \<noteq> t" by auto
  with d have "y = t + 1 \<or> (\<exists>j<k. y = clk j)" by auto
  with y g show ?thesis by blast
qed

text \<open>
  C7. For every reading that the clock can give at entry, which is every 64-bit value
  but the largest (2^63 - 1 milliseconds, some 292 million years after 1970), whatever
  the clock reads afterwards, and for every state of the generator: the call returns
  an identifier; and the poll loop, entered at that reading, exits with a timestamp
  greater than \<open>lastTimestamp\<close> that is either a clock reading taken before the
  timeout fired or \<open>lastTimestamp + 1\<close> forced by the timeout. There is no failure
  outcome: the result is always \<open>Some\<close>.
\<close>

theorem GenerateSnowflakeID_returns:
  assumes "now c \<noteq> max_int64"
  shows "(\<exists>v sg'. GenerateSnowflakeID c sg = Some (v, sg'))
    \<and> (\<exists>y. poll (ticks c) (Armed (fire c)) 0 (now c) (now c) = Some y
          \<and> now c <s y \<and> (y = now c + 1 \<or> (\<exists>j<fire c. y = ticks c j)))"
proof -
  from poll_entry [OF assms, of "ticks c" "fire c"]
  obtain y where y: "poll (ticks c) (Armed (fire c)) 0 (now c) (now c) = Some y"
    and r: "now c <s y \<and> (y = now c + 1 \<or> (\<exists>j<fire c. y = ticks c j))"
    by blast
  have "\<exists>v sg'. GenerateSnowflakeID c sg = Some (v, sg')"
    using y by (cases "now c = lastTimestamp sg")
      (auto simp: GenerateSnowflakeID_def finish_def Let_def)
  with y r show ?thesis by blast
qed

theorem GenerateSnowflakeID_returns_witness:
  "now (stalled 1000 2) \<noteq> max_int64
   \<and> GenerateSnowflakeID (stalled 1000 2) \<lparr>lastTimestamp = 1000, sequence = 4095, machineID = 1\<rparr>
       = Some (4198502400, \<lparr>lastTimestamp = 1001, sequence = 0, machineID = 1\<rparr>)
   \<and> poll (ticks (stalled 1000 2)) (Armed (fire (stalled 1000 2))) 0 1000 1000 = Some 1001"
proof -
  have h: "now (stalled 1000 2) \<noteq> max_int64" by code_simp
  have e: "GenerateSnowflakeID (stalled 1000 2) \<lparr>lastTimestamp = 1000, sequence = 4095, machineID = 1\<rparr>
       = Some (4198502400, \<lparr>lastTimestamp = 1001, sequence = 0, machineID = 1\<rparr>)"
    by code_simp
  have p: "poll (ticks (stalled 1000 2)) (Armed (fire (stalled 1000 2))) 0 1000 1000 = Some 1001"
    by code_simp
  show ?thesis
    using GenerateSnowflakeID_returns [OF h, of "\<lparr>lastTimestamp = 1000, sequence = 4095, machineID = 1\<rparr>"] h e p
    by simp
qed

lemma mints_append:
  "mints (cs @ ds) sg =
     (case mints cs sg of
        None \<Rightarrow> None
      | Some (vs, sg') \<Rightarrow>
          (case mints ds sg' of
             None \<Rightarrow> None
           | Some (ws, sg'') \<Rightarrow> Some (vs @ ws, sg'')))"
  by (induction cs arbitrary: sg) (auto split: option.splits)

lemma next_sequence:
  assumes "Suc q \<le> 4095"
  shows "(of_nat q + 1 :: int64) AND 0xFFF = of_nat (Suc q)" and "(of_nat (Suc q) :: int64) \<noteq> 0"
proof -
  have u: "unat (of_nat (Suc q) :: int64) = Suc q"
    using assms by (simp only: unat_of_nat) simp
  have "(of_nat (Suc q) :: int64) < 2 ^ 12"
    using assms by (simp only: word_less_nat_alt u) simp
  then have "(of_nat (Suc q) :: int64) AND mask 12 = of_nat (Suc q)"
    by (rule less_mask_eq)
  moreover have "(of_nat q + 1 :: int64) = of_nat (Suc q)" by simp
  ultimately show "(of_nat q + 1 :: int64) AND 0xFFF = of_nat (Suc q)"
    by (simp only: mask_12)
  show "(of_nat (Suc q) :: int64) \<noteq> 0"
    using u by (metis unat_0 nat.distinct(1))
qed

lemma same_ms_step:
  assumes "lastTimestamp sg = t" "sequence sg = of_nat q" "Suc q \<le> 4095"
  shows "GenerateSnowflakeID (stalled t k) sg =
    Some (push_bit 22 t OR push_bit 12 (machineID sg) OR of_nat (Suc q), sg\<lparr>sequence := of_nat (Suc q)\<rparr>)"
  using assms next_sequence [OF assms(3)]
  by (cases sg) (simp add: GenerateSnowflakeID_def finish_def stalled_def Let_def)

lemma mints_same_ms:
  assumes "lastTimestamp sg = t" "sequence sg = of_nat q" "q + n \<le> 4095"
  shows "mints (replicate n (stalled t k)) sg =
    Some (map (\<lambda>j. push_bit 22 t OR push_bit 12 (machineID sg) OR of_nat j) [Suc q..<Suc (q + n)],
          sg\<lparr>sequence := of_nat (q + n)\<rparr>)"
  using assms
proof (induction n arbitrary: sg q)
  case 0
  then show ?case by (cases sg) simp
next
  case (Suc n)
  have s: "GenerateSnowflakeID (stalled t k) sg =
    Some (push_bit 22 t OR push_bit 12 (machineID sg) OR of_nat (Suc q), sg\<lparr>sequence := of_nat (Suc q)\<rparr>)"
    using Suc.prems by (intro same_ms_step) simp_all
  have "mints (replicate n (stalled t k)) (sg\<lparr>sequence := of_nat (Suc q)\<rparr>) =
    Some (map (\<lambda>j. push_bit 22 t OR push_bit 12 (machineID (sg\<lparr>sequence := of_nat (Suc q)\<rparr>)) OR of_nat j)
            [Suc (Suc q)..<Suc (Suc q + n)],
          sg\<lparr>sequence := of_nat (Suc q)\<rparr>\<lparr>sequence := of_nat (Suc q + n)\<rparr>)"
    using Suc.prems by (intro Suc.IH) simp_all
  moreover have "[Suc q..<Suc (Suc (q + n))] = Suc q # [Suc (Suc q)..<Suc (Suc (q + n))]"
    by (subst upt_conv_Cons) simp_all
  ultimately show ?case
    using s by (simp del: upt_Suc)
qed

section \<open>Runs under a stalled clock\<close>

lemma mints_Cons_Some:
  "GenerateSnowflakeID c sg = Some (v, sg') \<Longrightarrow> mints cs sg' = Some (vs, sg'')
   \<Longrightarrow> mints (c # cs) sg = Some (v # vs, sg'')"
  by simp

lemma mints_append_Some:
  "mints cs sg = Some (vs, sg') \<Longrightarrow> mints ds sg' = Some (ws, sg'')
   \<Longrightarrow> mints (cs @ ds) sg = Some (vs @ ws, sg'')"
  by (simp add: mints_append)

lemma mints_append_None:
  "mints cs sg = Some (vs, sg') \<Longrightarrow> mints ds sg' = None \<Longrightarrow> mints (cs @ ds) sg = None"
  by (simp add: mints_append)

lemma mints_stalled_4096:
  assumes "t \<noteq> 0"
  shows "mints (replicate 4096 (stalled t k)) (NewSnowflakeGenerator d) =
    Some (map (\<lambda>j. push_bit 22 t OR push_bit 12 (d AND 0x3FF) OR of_nat j) [0..<4096],
          \<lparr>lastTimestamp = t, sequence = 4095, machineID = d AND 0x3FF\<rparr>)"
proof -
  let ?g = "\<lparr>lastTimestamp = t, sequence = 0, machineID = d AND 0x3FF\<rparr>"
  have first: "GenerateSnowflakeID (stalled t k) (NewSnowflakeGenerator d) =
      Some (push_bit 22 t OR push_bit 12 (d AND 0x3FF) OR of_nat 0, ?g)"
    using assms
    by (simp add: GenerateSnowflakeID_def finish_def stalled_def NewSnowflakeGenerator_def)
  have rest: "mints (replicate 4095 (stalled t k)) ?g =
      Some (map (\<lambda>j. push_bit 22 t OR push_bit 12 (machineID ?g) OR of_nat j) [Suc 0..<Suc (0 + 4095)],
            ?g\<lparr>sequence := of_nat (0 + 4095)\<rparr>)"
    by (rule mints_same_ms) simp_all
  have l: "[0..<4096] = 0 # [Suc 0..<4096]"
    by (subst upt_conv_Cons) simp_all
  have "replicate 4096 (stalled t k) = stalled t k # replicate 4095 (stalled t k)"
    using replicate_Suc [of 4095 "stalled t k"] by simp
  then show ?thesis
    using mints_Cons_Some [OF first rest] by (simp add: l)
qed

text \<open>
  The reading 2^63 - 1 is left out above because there \<open>lastTimestamp + 1\<close> wraps to
  the smallest value and no reading exceeds \<open>lastTimestamp\<close>: were a clock to read
  it on 4097 calls in a row, the last of them would not exit the loop.
\<close>

lemma poll_never_exits_at_max_int64:
  "mints (replicate 4097 (stalled max_int64 2)) (NewSnowflakeGenerator 1) = None"
proof -
  let ?c = "stalled max_int64 2"
  have r: "replicate 4097 ?c = replicate 4096 ?c @ [?c]"
    using replicate_add [of 4096 1 ?c] by simp
  have "max_int64 \<noteq> 0" by (simp add: max_int64_def)
  then have a: "mints (replicate 4096 ?c) (NewSnowflakeGenerator 1) =
      Some (map (\<lambda>j. push_bit 22 max_int64 OR push_bit 12 (1 AND 0x3FF) OR of_nat j) [0..<4096],
            \<lparr>lastTimestamp = max_int64, sequence = 4095, machineID = 1 AND 0x3FF\<rparr>)"
    by (rule mints_stalled_4096)
  have b: "mints [?c] \<lparr>lastTimestamp = max_int64, sequence = 4095, machineID = 1 AND 0x3FF\<rparr> = None"
    by (simp add: GenerateSnowflakeID_def stalled_def poll_max_diverges)
  show ?thesis
    unfolding r by (rule mints_append_None [OF a b])
qed

text \<open>
  C3. With node discriminator 1 and a clock that keeps reading 1000 while the timeout
  fires after two polls, 4098 calls on a fresh generator all return; the 4097th carries
  the timestamp 1001, but the 4098th reads 1000 again, resets the sequence, and returns
  the identifier of the first call, whose timestamp field is 1000.
\<close>

theorem stalled_clock_duplicate:
  "length (returned (replicate 4098 (stalled 1000 2)) (NewSnowflakeGenerator 1)) = 4098
   \<and> returned (replicate 4098 (stalled 1000 2)) (NewSnowflakeGenerator 1) ! 0 = 4194308096
   \<and> returned (replicate 4098 (stalled 1000 2)) (NewSnowflakeGenerator 1) ! 4096 = 4198502400
   \<and> returned (replicate 4098 (stalled 1000 2)) (NewSnowflakeGenerator 1) ! 4097 = 4194308096
   \<and> signed_drop_bit 22 (4194308096 :: int64) = 1000"
proof -
  let ?c = "stalled 1000 2"
  define ids :: "int64 list"
    where "ids = map (\<lambda>j. push_bit 22 1000 OR push_bit 12 (1 AND 0x3FF) OR of_nat j) [0..<4096]"
  have r: "replicate 4098 ?c = replicate 4096 ?c @ [?c, ?c]"
    using replicate_add [of 4096 2 ?c] by (simp add: numeral_2_eq_2)
  have a: "mints (replicate 4096 ?c) (NewSnowflakeGenerator 1) =
      Some (ids, \<lparr>lastTimestamp = 1000, sequence = 4095, machineID = 1 AND 0x3FF\<rparr>)"
    unfolding ids_def by (rule mints_stalled_4096) simp
  have b: "mints [?c, ?c] \<lparr>lastTimestamp = 1000, sequence = 4095, machineID = 1 AND 0x3FF\<rparr> =
      Some ([4198502400, 4194308096], \<lparr>lastTimestamp = 1000, sequence = 0, machineID = 1\<rparr>)"
    by code_simp
  have m: "mints (replicate 4098 ?c) (NewSnowflakeGenerator 1) =
      Some (ids @ [4198502400, 4194308096], \<lparr>lastTimestamp = 1000, sequence = 0, machineID = 1\<rparr>)"
    unfolding r by (rule mints_append_Some [OF a b])
  have len: "length ids = 4096" by (simp add: ids_def)
  have z: "ids ! 0 = 4194308096" by (simp add: ids_def)
  have e: "returned (replicate 4098 ?c) (NewSnowflakeGenerator 1) = ids @ [4198502400, 4194308096]"
    by (simp add: returned_def m)
  have "signed_drop_bit 22 (4194308096 :: int64) = 1000" by code_simp
  then show ?thesis
    unfolding e using z by (simp add: nth_append len)
qed

section \<open>Fields of a returned identifier\<close>

lemma uint_mask_10: "uint ((d::int64) AND 0x3FF) < 2 ^ 10"
  using and_mask_lt_2p [of d 10] by (simp only: mask_10)

lemma uint_mask_12: "uint ((q::int64) AND 0xFFF) < 2 ^ 12"
  using and_mask_lt_2p [of q 12] by (simp only: mask_12)

lemma sequence_incr:
  fixes q :: int64
  assumes "uint q < 2 ^ 12" "(q + 1) AND 0xFFF \<noteq> 0"
  shows "uint ((q + 1) AND 0xFFF) = uint q + 1"
proof -
  have u: "uint (q + 1) = uint q + 1"
    using assms(1) uint_add_lem [of q 1] by simp
  have m: "(q + 1) AND 0xFFF = word_of_int ((uint q + 1) mod 2 ^ 12)"
    by (simp only: mask_12 and_mask_mod_2p u)
  have "uint q + 1 \<noteq> 2 ^ 12"
  proof
    assume "uint q + 1 = 2 ^ 12"
    then have "(q + 1) AND 0xFFF = 0" by (simp only: m) simp
    with assms(2) show False by simp
  qed
  with assms(1) have lt: "uint q + 1 < 2 ^ 12" by simp
  have "0 \<le> uint q + 1" by simp
  with lt have "(uint q + 1) mod 2 ^ 12 = uint q + 1" by simp
  then have "(q + 1) AND 0xFFF = word_of_int (uint (q + 1))" by (simp only: m u)
  then have "(q + 1) AND 0xFFF = q + 1" by (simp only: word_of_int_uint)
  then show ?thesis by (simp only: u)
qed

lemma mints_machineID:
  "mints cs sg = Some (vs, sg') \<Longrightarrow> machineID sg' = machineID sg"
proof (induction cs arbitrary: sg vs)
  case Nil
  then show ?case by simp
next
  case (Cons c cs)
  then show ?case
    by (auto split: option.splits dest!: GenerateSnowflakeID_cases)
qed

lemma GenerateSnowflakeID_sequence:
  assumes "GenerateSnowflakeID c sg = Some (v, sg')"
  shows "sequence sg' AND 0xFFF = sequence sg'"
  using GenerateSnowflakeID_cases [OF assms] by (auto simp: and.assoc)

lemma GenerateSnowflakeID_timestamp:
  assumes "GenerateSnowflakeID c sg = Some (v, sg')"
  shows "now c \<le>s lastTimestamp sg'
    \<and> (lastTimestamp sg' = now c \<or> lastTimestamp sg' = now c + 1
       \<or> (\<exists>j<fire c. lastTimestamp sg' = ticks c j))"
proof -
  from GenerateSnowflakeID_cases [OF assms]
  consider "lastTimestamp sg' = now c"
    | "poll (ticks c) (Armed (fire c)) 0 (now c) (now c) = Some (lastTimestamp sg')"
    by blast
  then show ?thesis
  proof cases
    case 1
    then show ?thesis by simp
  next
    case 2
    then have g: "now c <s lastTimestamp sg'" by (rule poll_Some_greater)
    then have "now c \<noteq> max_int64" using sle_max_int64 [of "lastTimestamp sg'"] by auto
    from poll_entry [OF this, of "ticks c" "fire c"] 2 g
    show ?thesis by auto
  qed
qed

lemma sint_and_FFF: "0 \<le>s (v::int64) AND 0xFFF \<and> v AND 0xFFF \<le>s 4095"
proof -
  have le: "uint (v AND 0xFFF) \<le> 4095" using uint_and_le [of v "0xFFF"] by simp
  then have "sint (v AND 0xFFF) = uint (v AND 0xFFF)" by (intro sint_small) simp
  with le show ?thesis by (simp add: word_sle_eq)
qed

text \<open>
  C4 (as amended). For every value \<open>v\<close> returned by a call on a generator constructed
  with node discriminator \<open>d\<close>, after any earlier calls: \<open>v\<close> is the timestamp
  shifted by 22, or-ed with \<open>d AND 0x3FF\<close> shifted by 12 and with the sequence;
  \<open>(v >> 12) AND 0x3FF\<close> is \<open>d AND 0x3FF\<close>; \<open>v AND 0xFFF\<close> is the sequence and lies in
  [0, 4095]; the timestamp is at least the clock value at entry, and it is that value,
  or a reading polled during the call, or that value plus one (the forced advance, which
  no reading of the clock need have reached); and \<open>v >> 22\<close> recovers the timestamp
  when it lies in [0, 2^41).
\<close>

theorem GenerateSnowflakeID_layout:
  assumes "mints cs (NewSnowflakeGenerator d) = Some (vs, sg)"
    and "GenerateSnowflakeID c sg = Some (v, sg')"
  shows "v = push_bit 22 (lastTimestamp sg') OR push_bit 12 (d AND 0x3FF) OR sequence sg'
    \<and> signed_drop_bit 12 v AND 0x3FF = d AND 0x3FF
    \<and> v AND 0xFFF = sequence sg' \<and> 0 \<le>s v AND 0xFFF \<and> v AND 0xFFF \<le>s 4095
    \<and> now c \<le>s lastTimestamp sg'
    \<and> (lastTimestamp sg' = now c \<or> lastTimestamp sg' = now c + 1
       \<or> (\<exists>j<fire c. lastTimestamp sg' = ticks c j))
    \<and> (0 \<le>s lastTimestamp sg' \<and> lastTimestamp sg' <s 2 ^ 41
         \<longrightarrow> signed_drop_bit 22 v = lastTimestamp sg')"
proof -
  have m: "machineID sg = d AND 0x3FF"
    using mints_machineID [OF assms(1)] by (simp add: NewSnowflakeGenerator_def)
  have q: "sequence sg' AND 0xFFF = sequence sg'"
    using assms(2) by (rule GenerateSnowflakeID_sequence)
  have v: "v = push_bit 22 (lastTimestamp sg') OR push_bit 12 (d AND 0x3FF) OR sequence sg'"
    using GenerateSnowflakeID_cases [OF assms(2)] by (simp add: m)
  have v': "v = push_bit 22 (lastTimestamp sg') OR push_bit 12 (d AND mask 10) OR (sequence sg' AND mask 12)"
    using v q by (simp only: mask_10 mask_12)
  have dm: "signed_drop_bit 12 v AND 0x3FF = d AND 0x3FF"
    unfolding v' mask_10 by (rule decode_machine)
  have ds: "v AND 0xFFF = sequence sg'"
    using decode_sequence [of "lastTimestamp sg'" d "sequence sg'"] q
    by (simp only: v' mask_12)
  have dt: "signed_drop_bit 22 v = lastTimestamp sg'"
    if "0 \<le>s lastTimestamp sg'" "lastTimestamp sg' <s 2 ^ 41"
  proof -
    have "uint (sequence sg') < 2 ^ 12" using uint_mask_12 [of "sequence sg'"] by (simp only: q)
    then show ?thesis
      unfolding v using that uint_mask_10 [of d] by (intro decode_timestamp)
  qed
  show ?thesis
    using v dm ds sint_and_FFF [of v] GenerateSnowflakeID_timestamp [OF assms(2)] dt
    by blast
qed

theorem GenerateSnowflakeID_layout_witness:
  "mints [] (NewSnowflakeGenerator 2047) = Some ([], NewSnowflakeGenerator 2047)
   \<and> GenerateSnowflakeID (stalled 1000 0) (NewSnowflakeGenerator 2047)
       = Some (4198494208, \<lparr>lastTimestamp = 1000, sequence = 0, machineID = 1023\<rparr>)
   \<and> signed_drop_bit 12 (4198494208 :: int64) AND 0x3FF = 2047 AND 0x3FF
   \<and> (4198494208 :: int64) AND 0xFFF = 0
   \<and> signed_drop_bit 22 (4198494208 :: int64) = 1000"
proof -
  have h1: "mints [] (NewSnowflakeGenerator 2047) = Some ([], NewSnowflakeGenerator 2047)"
    by simp
  have h2: "GenerateSnowflakeID (stalled 1000 0) (NewSnowflakeGenerator 2047)
       = Some (4198494208, \<lparr>lastTimestamp = 1000, sequence = 0, machineID = 1023\<rparr>)"
    by code_simp
  show ?thesis
    using GenerateSnowflakeID_layout [OF h1 h2] h1 h2 by simp
qed

text \<open>
  C4, as stated, fails in its upper bound: with a clock that reads 1000 at entry and at
  every poll, before and after the timeout, the 4097th call on a fresh generator returns
  a value whose timestamp field is 1001.
\<close>

theorem forced_timestamp_exceeds_clock:
  "returned (replicate 4097 (stalled 1000 2)) (NewSnowflakeGenerator 1) ! 4096 = 4198502400
   \<and> signed_drop_bit 22 (4198502400 :: int64) = 1001
   \<and> now (stalled 1000 2) = 1000
   \<and> ticks (stalled 1000 2) 0 = 1000 \<and> ticks (stalled 1000 2) 1 = 1000
   \<and> ticks (stalled 1000 2) 2 = 1000
   \<and> \<not> (1001 :: int64) \<le>s 1000"
proof -
  let ?c = "stalled 1000 2"
  define ids :: "int64 list"
    where "ids = map (\<lambda>j. push_bit 22 1000 OR push_bit 12 (1 AND 0x3FF) OR of_nat j) [0..<4096]"
  have r: "replicate 4097 ?c = replicate 4096 ?c @ [?c]"
    using replicate_add [of 4096 1 ?c] by simp
  have a: "mints (replicate 4096 ?c) (NewSnowflakeGenerator 1) =
      Some (ids, \<lparr>lastTimestamp = 1000, sequence = 4095, machineID = 1 AND 0x3FF\<rparr>)"
    unfolding ids_def by (rule mints_stalled_4096) simp
  have b: "mints [?c] \<lparr>lastTimestamp = 1000, sequence = 4095, machineID = 1 AND 0x3FF\<rparr> =
      Some ([4198502400], \<lparr>lastTimestamp = 1001, sequence = 0, machineID = 1\<rparr>)"
    by code_simp
  have m: "mints (replicate 4097 ?c) (NewSnowflakeGenerator 1) =
      Some (ids @ [4198502400], \<lparr>lastTimestamp = 1001, sequence = 0, machineID = 1\<rparr>)"
    unfolding r by (rule mints_append_Some [OF a b])
  have len: "length ids = 4096" by (simp add: ids_def)
  have e: "returned (replicate 4097 ?c) (NewSnowflakeGenerator 1) = ids @ [4198502400]"
    by (simp add: returned_def m)
  have "signed_drop_bit 22 (4198502400 :: int64) = 1001" by code_simp
  then show ?thesis
    unfolding e by (simp add: nth_append len stalled_def steady_def)
qed

section \<open>Order of the identifiers\<close>

lemma sint_ident:
  assumes "well_formed sg"
  shows "sint (ident sg) = sint (lastTimestamp sg) * 2 ^ 22 + uint (machineID sg) * 2 ^ 12 + uint (sequence sg)"
  using assms unfolding well_formed_def ident_def by (intro sint_layout) simp_all

lemma GenerateSnowflakeID_increases:
  assumes wf: "well_formed sg"
    and up: "lastTimestamp sg \<le>s now c"
    and gen: "GenerateSnowflakeID c sg = Some (v, sg')"
    and fit: "lastTimestamp sg' <s 2 ^ 41"
  shows "well_formed sg' \<and> v = ident sg' \<and> ident sg <s v"
proof -
  note cs = GenerateSnowflakeID_cases [OF gen]
  from cs have mid: "machineID sg' = machineID sg" by simp
  from cs have v: "v = ident sg'" by (simp add: ident_def)
  have q: "uint (sequence sg') < 2 ^ 12"
    using uint_mask_12 [of "sequence sg'"] GenerateSnowflakeID_sequence [OF gen] by simp
  have mono: "lastTimestamp sg \<le>s lastTimestamp sg'"
    using GenerateSnowflakeID_timestamp [OF gen] up by (auto simp: word_sle_eq)
  have wf': "well_formed sg'"
    using wf mono fit q by (auto simp: well_formed_def mid word_sle_eq)
  from cs consider
      (same) "lastTimestamp sg' = lastTimestamp sg" "sequence sg' = (sequence sg + 1) AND 0xFFF"
        "sequence sg' \<noteq> 0"
    | (poll) "now c = lastTimestamp sg" "sequence sg' = 0"
        "poll (ticks c) (Armed (fire c)) 0 (now c) (now c) = Some (lastTimestamp sg')"
    | (fresh) "now c \<noteq> lastTimestamp sg" "sequence sg' = 0" "lastTimestamp sg' = now c"
    by auto
  then have "sint (ident sg) < sint (ident sg')"
  proof cases
    case same
    have "uint (sequence sg') = uint (sequence sg) + 1"
      using wf same(2,3) by (simp add: well_formed_def sequence_incr)
    then show ?thesis
      by (simp add: sint_ident [OF wf] sint_ident [OF wf'] mid same(1))
  next
    case poll
    have "lastTimestamp sg <s lastTimestamp sg'"
      using poll_Some_greater [OF poll(3)] poll(1) by simp
    then have "sint (lastTimestamp sg) + 1 \<le> sint (lastTimestamp sg')"
      by (simp add: word_sless_alt)
    then have "(sint (lastTimestamp sg) + 1) * 2 ^ 22 \<le> sint (lastTimestamp sg') * 2 ^ 22"
      by (simp only: mult_right_mono zero_le_numeral zero_le_power)
    moreover have "uint (sequence sg) < 2 ^ 12" "uint (machineID sg) < 2 ^ 10"
      using wf by (simp_all add: well_formed_def)
    ultimately show ?thesis
      by (simp add: sint_ident [OF wf] sint_ident [OF wf'] mid poll(2))
  next
    case fresh
    have "lastTimestamp sg <s lastTimestamp sg'"
      using up fresh(1,3) by (auto simp: signed.less_le)
    then have "sint (lastTimestamp sg) + 1 \<le> sint (lastTimestamp sg')"
      by (simp add: word_sless_alt)
    then have "(sint (lastTimestamp sg) + 1) * 2 ^ 22 \<le> sint (lastTimestamp sg') * 2 ^ 22"
      by (simp only: mult_right_mono zero_le_numeral zero_le_power)
    moreover have "uint (sequence sg) < 2 ^ 12" "uint (machineID sg) < 2 ^ 10"
      using wf by (simp_all add: well_formed_def)
    ultimately show ?thesis
      by (simp add: sint_ident [OF wf] sint_ident [OF wf'] mid fresh(2))
  qed
  then have "ident sg <s v" by (simp add: word_sless_alt v)
  with wf' v show ?thesis by simp
qed

lemma GenerateSnowflakeID_Some:
  assumes "now c = lastTimestamp sg \<longrightarrow> lastTimestamp sg \<noteq> max_int64"
  shows "\<exists>v sg'. GenerateSnowflakeID c sg = Some (v, sg')"
proof (cases "now c = lastTimestamp sg")
  case True
  with assms have "now c \<noteq> max_int64" by simp
  from poll_entry [OF this, of "ticks c" "fire c"] True show ?thesis
    by (auto simp: GenerateSnowflakeID_def finish_def Let_def)
next
  case False
  then show ?thesis by (simp add: GenerateSnowflakeID_def finish_def Let_def)
qed

lemma mints_increasing:
  assumes "well_formed sg" "clock_keeps_up cs sg"
  shows "\<exists>vs sg'. mints cs sg = Some (vs, sg') \<and> length vs = length cs
    \<and> sorted_wrt (<s) vs \<and> (\<forall>v\<in>set vs. ident sg <s v)"
  using assms
proof (induction cs arbitrary: sg)
  case Nil
  then show ?case by simp
next
  case (Cons c cs)
  from Cons.prems(2) have up: "lastTimestamp sg \<le>s now c" by simp
  have "lastTimestamp sg \<noteq> max_int64"
    using Cons.prems(1) sle_max_int64 [of "2 ^ 41"] by (auto simp: well_formed_def)
  then obtain v sg1 where gen: "GenerateSnowflakeID c sg = Some (v, sg1)"
    using GenerateSnowflakeID_Some [of c sg] by auto
  with Cons.prems(2) have fit: "lastTimestamp sg1 <s 2 ^ 41"
    and rest: "clock_keeps_up cs sg1"
    by simp_all
  from GenerateSnowflakeID_increases [OF Cons.prems(1) up gen fit]
  have wf1: "well_formed sg1" and v: "v = ident sg1" and lt: "ident sg <s v" by blast+
  from Cons.IH [OF wf1 rest] obtain vs sg' where
    m: "mints cs sg1 = Some (vs, sg')" and len: "length vs = length cs"
    and srt: "sorted_wrt (<s) vs" and above: "\<forall>w\<in>set vs. ident sg1 <s w"
    by blast
  have "\<forall>w\<in>set vs. v <s w" using above v by simp
  moreover from this lt have "\<forall>w\<in>set vs. ident sg <s w" by auto
  ultimately show ?case
    using gen m len srt lt by simp
qed

lemma well_formed_New: "well_formed (NewSnowflakeGenerator d)"
proof -
  have "(0::int64) <s 2 ^ 41" by code_simp
  then show ?thesis
    using uint_mask_10 [of d] by (simp add: well_formed_def NewSnowflakeGenerator_def)
qed

text \<open>
  C2 (as amended). For every run of calls on a freshly constructed generator in which
  each call reads at entry a clock value not less than the generator's
  \<open>lastTimestamp\<close>, and every timestamp recorded is below 2^41: every call returns,
  and the identifiers are strictly increasing (as signed 64-bit integers) in the order
  of return.
\<close>

theorem identifiers_increase_while_clock_keeps_up:
  assumes "clock_keeps_up cs (NewSnowflakeGenerator d)"
  shows "\<exists>vs sg'. mints cs (NewSnowflakeGenerator d) = Some (vs, sg')
    \<and> length vs = length cs \<and> sorted_wrt (<s) vs"
  using mints_increasing [OF well_formed_New assms] by blast

theorem identifiers_increase_while_clock_keeps_up_witness:
  "clock_keeps_up [stalled 5 0, stalled 5 0, stalled 7 0] (NewSnowflakeGenerator 1)
   \<and> mints [stalled 5 0, stalled 5 0, stalled 7 0] (NewSnowflakeGenerator 1)
       = Some ([20975616, 20975617, 29364224], \<lparr>lastTimestamp = 7, sequence = 0, machineID = 1\<rparr>)
   \<and> sorted_wrt (<s) [20975616, 20975617, 29364224 :: int64]"
proof -
  have h: "clock_keeps_up [stalled 5 0, stalled 5 0, stalled 7 0] (NewSnowflakeGenerator 1)"
    by code_simp
  have e: "mints [stalled 5 0, stalled 5 0, stalled 7 0] (NewSnowflakeGenerator 1)
       = Some ([20975616, 20975617, 29364224], \<lparr>lastTimestamp = 7, sequence = 0, machineID = 1\<rparr>)"
    by code_simp
  show ?thesis
    using identifiers_increase_while_clock_keeps_up [OF h] h e by simp
qed

text \<open>
  The bound on the timestamps cannot be dropped: from 2^41 on, the shift by 22 reaches
  the sign bit, and an identifier minted one millisecond later is negative.
\<close>

lemma timestamp_reaches_sign_bit:
  "returned [stalled (2 ^ 41 - 1) 0, stalled (2 ^ 41) 0] (NewSnowflakeGenerator 1)
     = [9223372036850585600, 9223372036854779904]
   \<and> (9223372036854779904 :: int64) <s 9223372036850585600"
  by code_simp

text \<open>
  C2, as stated, fails: when the clock reads 5 and then 3, the second identifier is
  smaller than the first.
\<close>

theorem backward_clock_decreases:
  "mints [stalled 5 0, stalled 3 0] (NewSnowflakeGenerator 1)
     = Some ([20975616, 12587008], \<lparr>lastTimestamp = 3, sequence = 0, machineID = 1\<rparr>)
   \<and> \<not> (20975616 :: int64) <s 12587008"
proof -
  have "mints [stalled 5 0, stalled 3 0] (NewSnowflakeGenerator 1)
     = Some ([20975616, 12587008], \<lparr>lastTimestamp = 3, sequence = 0, machineID = 1\<rparr>)"
    by code_simp
  then show ?thesis by simp
qed

end
